theory Spec2Isabelle
  imports Main
begin

section \<open>Strings of the source language\<close>

text \<open>
  The component \<^verbatim>\<open>src/app/components/SpreadsheetOCR.js\<close> turns the text recognised in
  an image into a list of records (\<^verbatim>\<open>processImage\<close>) and serialises that list as CSV
  (\<^verbatim>\<open>exportToCSV\<close>). The model starts at the recognised text and ends at the text of
  the file offered for download; reading the image, the recognition engine and the rendering
  are outside it.

  A JavaScript string is modelled as a \<^typ>\<open>string\<close>: each \<^typ>\<open>char\<close> is one code
  unit in the range 0 to 255 (Basic Latin and Latin-1). This range contains the line break
  and the whole character whitelist that the component hands to the recognition engine.
  White space, lower case and the escapes of \<^verbatim>\<open>JSON.stringify\<close> are those of the language
  on this range. An exception of the language is a value of type \<open>error\<close>.
\<close>

datatype error = TypeError

definition is_ws :: "char \<Rightarrow> bool" where
  \<comment> \<open>what \<^verbatim>\<open>\s\<close> matches and what \<^verbatim>\<open>trim\<close> strips: TAB, LF, VT, FF, CR, SP, NBSP\<close>
  "is_ws c \<longleftrightarrow> c \<in> set [CHR 0x09, CHR 0x0A, CHR 0x0B, CHR 0x0C, CHR 0x0D, CHR 0x20, CHR 0xA0]"

definition trim :: "string \<Rightarrow> string" where
  "trim s = rev (dropWhile is_ws (rev (dropWhile is_ws s)))"

definition lower_char :: "char \<Rightarrow> char" where
  \<comment> \<open>A to Z, and the Latin-1 capitals 0xC0 to 0xDE without the multiplication sign 0xD7\<close>
  "lower_char c =
     (let n = (of_char c :: nat)
      in if (65 \<le> n \<and> n \<le> 90) \<or> (192 \<le> n \<and> n \<le> 222 \<and> n \<noteq> 215)
         then char_of (n + 32) else c)"

definition toLowerCase :: "string \<Rightarrow> string" where
  "toLowerCase s = map lower_char s"

fun split_on :: "char \<Rightarrow> string \<Rightarrow> string list" where
  \<comment> \<open>\<^verbatim>\<open>s.split(d)\<close> for a one-character separator; the empty string gives one empty field\<close>
  "split_on d [] = [[]]"
| "split_on d (c # cs) =
     (if c = d then [] # split_on d cs
      else (let r = split_on d cs in (c # hd r) # tl r))"

function split_ws :: "string \<Rightarrow> string list" where
  \<comment> \<open>\<^verbatim>\<open>s.split(/\s+/)\<close>: the fields between the maximal runs of white space\<close>
  "split_ws [] = [[]]"
| "split_ws (c # cs) =
     (if is_ws c then [] # split_ws (dropWhile is_ws cs)
      else (let r = split_ws cs in (c # hd r) # tl r))"
  by pat_completeness auto
termination
  by (relation "measure length") (auto simp: less_Suc_eq_le length_dropWhile_le)

function replace_ws :: "string \<Rightarrow> string" where
  \<comment> \<open>\<^verbatim>\<open>s.replace(/\s+/g, '_')\<close>\<close>
  "replace_ws [] = []"
| "replace_ws (c # cs) =
     (if is_ws c then CHR ''_'' # replace_ws (dropWhile is_ws cs)
      else c # replace_ws cs)"
  by pat_completeness auto
termination
  by (relation "measure length") (auto simp: less_Suc_eq_le length_dropWhile_le)

fun join_str :: "string \<Rightarrow> string list \<Rightarrow> string" where
  \<comment> \<open>\<^verbatim>\<open>xs.join(sep)\<close>\<close>
  "join_str sep [] = []"
| "join_str sep [x] = x"
| "join_str sep (x # y # ys) = x @ sep @ join_str sep (y # ys)"

definition truthy :: "string \<Rightarrow> bool" where
  \<comment> \<open>a string is falsy exactly when it is empty\<close>
  "truthy s \<longleftrightarrow> s \<noteq> []"

section \<open>Objects with string values\<close>

text \<open>
  A record of the table is an object created by \<^verbatim>\<open>{}\<close> and filled by assignments
  \<^verbatim>\<open>row[header] = value\<close> with string values. It is modelled by the list of its own
  properties in creation order. Three facts of the language are part of the model:
  \<^item> an assignment to an existing key replaces the value and keeps the key's place;
  \<^item> an assignment to the key \<^verbatim>\<open>__proto__\<close> reaches the accessor inherited from
    \<^verbatim>\<open>Object.prototype\<close>, whose setter ignores a value that is neither an object nor
    null, so no own property is created;
  \<^item> \<^verbatim>\<open>Object.keys\<close> and \<^verbatim>\<open>Object.values\<close> list the keys that are array indices
    (canonical decimal numerals below \<open>2^32 - 1\<close>) first, in ascending numeric order, and
    the other keys after them in creation order.
\<close>

type_synonym js_object = "(string \<times> string) list"

definition is_digit :: "char \<Rightarrow> bool" where
  "is_digit c \<longleftrightarrow> 48 \<le> (of_char c :: nat) \<and> (of_char c :: nat) \<le> 57"

definition index_value :: "string \<Rightarrow> int" where
  "index_value s = foldl (\<lambda>n c. 10 * n + (of_char c - 48)) 0 s"

definition is_array_index :: "string \<Rightarrow> bool" where
  "is_array_index s \<longleftrightarrow>
     s \<noteq> [] \<and> list_all is_digit s \<and> (length s = 1 \<or> hd s \<noteq> CHR ''0'') \<and>
     index_value s \<le> 4294967294"

fun obj_update :: "js_object \<Rightarrow> string \<Rightarrow> string \<Rightarrow> js_object" where
  "obj_update [] k v = [(k, v)]"
| "obj_update ((k', v') # ps) k v =
     (if k' = k then (k, v) # ps else (k', v') # obj_update ps k v)"

definition obj_set :: "js_object \<Rightarrow> string \<Rightarrow> string \<Rightarrow> js_object" where
  \<comment> \<open>\<^verbatim>\<open>row[k] = v\<close> for a string \<open>v\<close>\<close>
  "obj_set row k v = (if k = ''__proto__'' then row else obj_update row k v)"

definition Object_entries :: "js_object \<Rightarrow> (string \<times> string) list" where
  "Object_entries row =
     sort_key (\<lambda>p. index_value (fst p)) (filter (\<lambda>p. is_array_index (fst p)) row) @
     filter (\<lambda>p. \<not> is_array_index (fst p)) row"

definition Object_keys :: "js_object \<Rightarrow> string list" where
  "Object_keys row = map fst (Object_entries row)"

definition Object_values :: "js_object \<Rightarrow> string list" where
  "Object_values row = map snd (Object_entries row)"

datatype js_value = JSUndefined | JSString string | JSFunction | JSObjectPrototype

definition Object_prototype_methods :: "string list" where
  "Object_prototype_methods =
     [''constructor'', ''hasOwnProperty'', ''isPrototypeOf'', ''propertyIsEnumerable'',
      ''toLocaleString'', ''toString'', ''valueOf'', ''__defineGetter__'',
      ''__defineSetter__'', ''__lookupGetter__'', ''__lookupSetter__'']"

definition obj_get :: "js_object \<Rightarrow> string \<Rightarrow> js_value" where
  \<comment> \<open>\<^verbatim>\<open>row[k]\<close>: the own property, else what \<^verbatim>\<open>Object.prototype\<close> has under that name\<close>
  "obj_get row k =
     (case map_of row k of
        Some v \<Rightarrow> JSString v
      | None \<Rightarrow>
          if k = ''__proto__'' then JSObjectPrototype
          else if k \<in> set Object_prototype_methods then JSFunction
          else JSUndefined)"

section \<open>Building the table: \<^verbatim>\<open>processImage\<close>, after the recognition\<close>

definition text_lines :: "string \<Rightarrow> string list" where
  \<comment> \<open>\<^verbatim>\<open>text.split('\n').filter((line) => line.trim())\<close>\<close>
  "text_lines text = filter (\<lambda>line. truthy (trim line)) (split_on (CHR 0x0A) text)"

definition normalize_header :: "string \<Rightarrow> string" where
  \<comment> \<open>\<^verbatim>\<open>header.trim().toLowerCase().replace(/\s+/g, '_')\<close>\<close>
  "normalize_header header = replace_ws (toLowerCase (trim header))"

definition extract_headers :: "string \<Rightarrow> string list" where
  \<comment> \<open>\<^verbatim>\<open>lines[0].split(/\s+/).map(...).filter(Boolean)\<close>\<close>
  "extract_headers line = filter truthy (map normalize_header (split_ws line))"

definition line_values :: "string \<Rightarrow> string list" where
  \<comment> \<open>\<^verbatim>\<open>line.split(/\s+/).filter(Boolean)\<close>\<close>
  "line_values line = filter truthy (split_ws line)"

definition value_or_empty :: "string list \<Rightarrow> nat \<Rightarrow> string" where
  \<comment> \<open>\<^verbatim>\<open>values[index] || ''\<close>: an index out of range reads \<^verbatim>\<open>undefined\<close>\<close>
  "value_or_empty vs i = (if i < length vs \<and> truthy (vs ! i) then vs ! i else [])"

definition build_row :: "string list \<Rightarrow> string list \<Rightarrow> js_object" where
  \<comment> \<open>\<^verbatim>\<open>const row = {}; headers.forEach((header, index) => { row[header] = values[index] || ''; })\<close>\<close>
  "build_row headers vs =
     fold (\<lambda>(header, index) row. obj_set row header (value_or_empty vs index))
          (zip headers [0 ..< length headers]) []"

definition row_kept :: "js_object \<Rightarrow> bool" where
  \<comment> \<open>\<^verbatim>\<open>Object.values(row).some((value) => value)\<close>\<close>
  "row_kept row \<longleftrightarrow> list_ex truthy (Object_values row)"

definition processText :: "string \<Rightarrow> error + js_object list" where
  \<comment> \<open>the value handed to \<^verbatim>\<open>setExtractedData\<close>, or the exception that reaches the
      \<^verbatim>\<open>catch\<close> block: \<^verbatim>\<open>lines[0]\<close> of an empty array is \<^verbatim>\<open>undefined\<close>, and calling
      \<^verbatim>\<open>split\<close> on it throws a TypeError\<close>
  "processText text =
     (case text_lines text of
        [] \<Rightarrow> Inl TypeError
      | first # rest \<Rightarrow>
          (let headers = extract_headers first
           in Inr (filter row_kept
                     (map (\<lambda>line. build_row headers (line_values line))
                          (filter (\<lambda>line. truthy (trim line)) rest)))))"

definition processHeaders :: "string \<Rightarrow> error + string list" where
  \<comment> \<open>the local \<^verbatim>\<open>headers\<close> of the same run\<close>
  "processHeaders text =
     (case text_lines text of
        [] \<Rightarrow> Inl TypeError
      | first # rest \<Rightarrow> Inr (extract_headers first))"

section \<open>Serialising the table: \<^verbatim>\<open>exportToCSV\<close>\<close>

definition hex_digit :: "nat \<Rightarrow> char" where
  "hex_digit n = ''0123456789abcdef'' ! (n mod 16)"

definition json_escape :: "char \<Rightarrow> string" where
  \<comment> \<open>the escapes of \<^verbatim>\<open>JSON.stringify\<close> on a string\<close>
  "json_escape c =
     (if c = CHR 0x08 then [CHR 0x5C, CHR ''b'']
      else if c = CHR 0x09 then [CHR 0x5C, CHR ''t'']
      else if c = CHR 0x0A then [CHR 0x5C, CHR ''n'']
      else if c = CHR 0x0C then [CHR 0x5C, CHR ''f'']
      else if c = CHR 0x0D then [CHR 0x5C, CHR ''r'']
      else if c = CHR 0x22 then [CHR 0x5C, CHR 0x22]
      else if c = CHR 0x5C then [CHR 0x5C, CHR 0x5C]
      else if (of_char c :: nat) < 32
        then [CHR 0x5C, CHR ''u'', CHR ''0'', CHR ''0'',
              hex_digit (of_char c div 16), hex_digit (of_char c)]
      else [c])"

definition JSON_stringify :: "string \<Rightarrow> string" where
  "JSON_stringify s = CHR 0x22 # concat (map json_escape s) @ [CHR 0x22]"

definition csv_field :: "js_object \<Rightarrow> string \<Rightarrow> string" where
  \<comment> \<open>\<^verbatim>\<open>JSON.stringify(row[header] || '')\<close> as \<^verbatim>\<open>join\<close> renders it: a function
      stringifies to \<^verbatim>\<open>undefined\<close>, which \<^verbatim>\<open>join\<close> renders as the empty string, and
      \<^verbatim>\<open>Object.prototype\<close> has no enumerable property\<close>
  "csv_field row header =
     (case obj_get row header of
        JSString v \<Rightarrow> JSON_stringify (if truthy v then v else [])
      | JSUndefined \<Rightarrow> JSON_stringify []
      | JSFunction \<Rightarrow> []
      | JSObjectPrototype \<Rightarrow> ''{}'')"

definition csv_content :: "js_object list \<Rightarrow> string" where
  "csv_content extractedData =
     (let headers = Object_keys (hd extractedData)
      in join_str [CHR 0x0A]
           (join_str '','' headers #
            map (\<lambda>row. join_str '','' (map (csv_field row) headers)) extractedData))"

definition exportToCSV :: "js_object list option \<Rightarrow> error + string option" where
  \<comment> \<open>\<open>None\<close> is the state \<^verbatim>\<open>null\<close>. The result is the text of the downloaded file,
      \<open>Inr None\<close> when the function returns without a download. An empty array is truthy, so
      the guard lets it pass, \<^verbatim>\<open>extractedData[0]\<close> is \<^verbatim>\<open>undefined\<close> and
      \<^verbatim>\<open>Object.keys\<close> throws a TypeError on it\<close>
  "exportToCSV extractedData =
     (case extractedData of
        None \<Rightarrow> Inr None
      | Some [] \<Rightarrow> Inl TypeError
      | Some (row # rows) \<Rightarrow> Inr (Some (csv_content (row # rows))))"

section \<open>Notions of the specification\<close>

text \<open>
  The definitions of this section follow the words of the specification, not the code.
  A Token is a maximal run of characters that are not white space (the code splits on white
  space and drops the empty fields). A line is blank when it is empty or white space only.
  Plain alphanumeric content is made of the digits and the unaccented letters. Re-tokenizing
  a payload splits it into lines, every line on commas, and strips the quotes around every
  field.
\<close>

function spec_tokens :: "string \<Rightarrow> string list" where
  "spec_tokens s =
     (case dropWhile is_ws s of
        [] \<Rightarrow> []
      | c # cs \<Rightarrow> (c # takeWhile (\<lambda>x. \<not> is_ws x) cs) # spec_tokens (dropWhile (\<lambda>x. \<not> is_ws x) cs))"
  by pat_completeness auto
termination
proof (relation "measure length", goal_cases)
  case 1
  show ?case by simp
next
  case (2 s c cs)
  have "length (dropWhile (\<lambda>x. \<not> is_ws x) cs) \<le> length cs"
    by (rule length_dropWhile_le)
  moreover have "length (dropWhile is_ws s) \<le> length s"
    by (rule length_dropWhile_le)
  ultimately show ?case using 2 by simp
qed

declare spec_tokens.simps [simp del]

definition nonblank :: "string \<Rightarrow> bool" where
  \<comment> \<open>a line that is neither empty nor white space only\<close>
  "nonblank line \<longleftrightarrow> list_ex (\<lambda>c. \<not> is_ws c) line"

definition is_alnum :: "char \<Rightarrow> bool" where
  "is_alnum c =
     (let n = (of_char c :: nat)
      in (48 \<le> n \<and> n \<le> 57) \<or> (65 \<le> n \<and> n \<le> 90) \<or> (97 \<le> n \<and> n \<le> 122))"

definition strip_quotes :: "string \<Rightarrow> string" where
  \<comment> \<open>removes one pair of surrounding double quotes\<close>
  "strip_quotes f =
     (if 2 \<le> length f \<and> hd f = CHR 0x22 \<and> last f = CHR 0x22 then butlast (tl f) else f)"

definition retokenize :: "string \<Rightarrow> string list list" where
  \<comment> \<open>splits the payload into lines, each line on commas, and strips the quotes of each field\<close>
  "retokenize payload =
     map (\<lambda>line. map strip_quotes (split_on (CHR '','') line)) (split_on (CHR 0x0A) payload)"

section \<open>White space, tokens and header keys\<close>

lemma truthy_simps [simp]: "truthy [] = False" "truthy (c # cs) = True"
  by (simp_all add: truthy_def)

lemma char_eq_of_char: "(c = d) = ((of_char c :: nat) = of_char d)"
  by simp

lemma is_ws_of_char:
  "is_ws c \<longleftrightarrow> (of_char c :: nat) \<in> {9, 10, 11, 12, 13, 32, 160}"
  unfolding is_ws_def
  by (simp add: char_eq_of_char [of c] del: of_char_eq_iff)

lemma is_ws_lower_char [simp]: "is_ws (lower_char c) = is_ws c"
  unfolding is_ws_of_char lower_char_def Let_def
  by auto

lemma trim_nonblank: "truthy (trim l) \<longleftrightarrow> (\<exists>c\<in>set l. \<not> is_ws c)"
proof -
  have "truthy (trim l) \<longleftrightarrow> (\<exists>c\<in>set (dropWhile is_ws l). \<not> is_ws c)"
    by (simp add: truthy_def trim_def dropWhile_eq_Nil_conv)
  also have "\<dots> \<longleftrightarrow> (\<exists>c\<in>set l. \<not> is_ws c)"
    by (induction l) auto
  finally show ?thesis .
qed

lemma dropWhile_none: "\<forall>c\<in>set xs. \<not> P c \<Longrightarrow> dropWhile P xs = xs"
  by (cases xs) auto

lemma spec_tokens_Nil [simp]: "spec_tokens [] = []"
  by (simp add: spec_tokens.simps)

lemma spec_tokens_ws [simp]: "is_ws c \<Longrightarrow> spec_tokens (c # cs) = spec_tokens cs"
  by (simp add: spec_tokens.simps [of "c # cs"] spec_tokens.simps [of cs])

lemma spec_tokens_nonws [simp]:
  "\<not> is_ws c \<Longrightarrow> spec_tokens (c # cs) =
     (c # takeWhile (\<lambda>x. \<not> is_ws x) cs) # spec_tokens (dropWhile (\<lambda>x. \<not> is_ws x) cs)"
  by (simp add: spec_tokens.simps [of "c # cs"])

lemma spec_tokens_dropWhile [simp]: "spec_tokens (dropWhile is_ws s) = spec_tokens s"
  by (induction s) auto

lemma split_ws_not_Nil [simp]: "split_ws s \<noteq> []"
  by (induction s rule: split_ws.induct) (auto simp: Let_def)

lemma hd_split_ws: "hd (split_ws s) = takeWhile (\<lambda>x. \<not> is_ws x) s"
  by (induction s rule: split_ws.induct) (auto simp: Let_def)

lemma split_ws_tokens:
  "filter truthy (split_ws s) = spec_tokens s"
proof (induction s rule: split_ws.induct)
  case 1
  show ?case by simp
next
  case (2 c cs)
  show ?case
  proof (cases "is_ws c")
    case True
    with 2 show ?thesis by simp
  next
    case False
    have r: "split_ws cs = hd (split_ws cs) # tl (split_ws cs)" by simp
    have tl_eq: "filter truthy (tl (split_ws cs)) = spec_tokens (dropWhile (\<lambda>x. \<not> is_ws x) cs)"
    proof (cases cs)
      case Nil
      then show ?thesis by simp
    next
      case (Cons d ds)
      show ?thesis
      proof (cases "is_ws d")
        case True
        have "filter truthy (split_ws cs) = filter truthy (tl (split_ws cs))"
          using Cons True by simp
        with 2(2) [OF False] Cons True show ?thesis by simp
      next
        case d: False
        have "filter truthy (split_ws cs) = hd (split_ws cs) # filter truthy (tl (split_ws cs))"
          using Cons d by (simp add: Let_def)
        with 2(2) [OF False] Cons d show ?thesis by (simp add: Let_def)
      qed
    qed
    from False tl_eq show ?thesis
      by (simp add: Let_def hd_split_ws)
  qed
qed

lemma line_values_tokens: "line_values line = spec_tokens line"
  by (simp add: line_values_def split_ws_tokens)

lemma split_ws_no_ws: "f \<in> set (split_ws s) \<Longrightarrow> c \<in> set f \<Longrightarrow> \<not> is_ws c"
proof (induction s arbitrary: f rule: split_ws.induct)
  case 1
  then show ?case by simp
next
  case (2 d ds)
  show ?case
  proof (cases "is_ws d")
    case True
    with 2 show ?thesis by auto
  next
    case False
    have r: "split_ws ds = hd (split_ws ds) # tl (split_ws ds)" by simp
    from 2(3) False have "f = d # hd (split_ws ds) \<or> f \<in> set (tl (split_ws ds))"
      by (simp add: Let_def)
    then show ?thesis
    proof
      assume "f = d # hd (split_ws ds)"
      with 2(4) have "c = d \<or> c \<in> set (hd (split_ws ds))" by auto
      then show ?thesis
      proof
        assume "c = d" with False show ?thesis by simp
      next
        assume "c \<in> set (hd (split_ws ds))"
        moreover have "hd (split_ws ds) \<in> set (split_ws ds)" by simp
        ultimately show ?thesis using 2(2) [OF False] by blast
      qed
    next
      assume "f \<in> set (tl (split_ws ds))"
      then have "f \<in> set (split_ws ds)" by (metis list.set_sel(2) split_ws_not_Nil)
      with 2(2) [OF False] 2(4) show ?thesis by blast
    qed
  qed
qed

lemma trim_no_ws: "\<forall>c\<in>set s. \<not> is_ws c \<Longrightarrow> trim s = s"
proof -
  assume a: "\<forall>c\<in>set s. \<not> is_ws c"
  have 1: "dropWhile is_ws s = s" using a by (simp add: dropWhile_none)
  have 2: "dropWhile is_ws (rev s) = rev s" using a by (simp add: dropWhile_none)
  show ?thesis by (simp add: trim_def 1 2)
qed

lemma replace_ws_no_ws: "\<forall>c\<in>set s. \<not> is_ws c \<Longrightarrow> replace_ws s = s"
  by (induction s) auto

lemma normalize_header_no_ws:
  "\<forall>c\<in>set s. \<not> is_ws c \<Longrightarrow> normalize_header s = toLowerCase s"
  by (simp add: normalize_header_def trim_no_ws replace_ws_no_ws toLowerCase_def)

lemma extract_headers_tokens: "extract_headers line = map toLowerCase (spec_tokens line)"
proof -
  have 1: "map normalize_header (split_ws line) = map toLowerCase (split_ws line)"
    by (rule map_cong [OF refl]) (blast intro: normalize_header_no_ws dest: split_ws_no_ws)
  have 2: "filter truthy (map toLowerCase xs) = map toLowerCase (filter truthy xs)" for xs
    by (induction xs) (auto simp: truthy_def toLowerCase_def)
  show ?thesis
    unfolding extract_headers_def 1 2 split_ws_tokens ..
qed


section \<open>Export without data\<close>

text \<open>
  Claim C10. When no table exists (the state \<^verbatim>\<open>extractedData\<close> is still \<^verbatim>\<open>null\<close>),
  \<^verbatim>\<open>exportToCSV\<close> returns at its guard: no error is raised and no payload is produced.
\<close>

theorem export_without_table_is_noop: "exportToCSV None = Inr None"
  by (simp add: exportToCSV_def)

text \<open>
  Claim C3. Export on a table that exists but has no record fails and produces no payload:
  the empty array passes the guard, \<^verbatim>\<open>Object.keys(extractedData[0])\<close> throws a TypeError
  before any payload is built.
\<close>

theorem export_empty_table_fails: "exportToCSV (Some []) = Inl TypeError"
  by (simp add: exportToCSV_def)

section \<open>Records as objects\<close>

lemma value_or_empty_eq: "value_or_empty vs i = (if i < length vs then vs ! i else [])"
  by (simp add: value_or_empty_def truthy_def)

lemma fst_obj_update:
  "map fst (obj_update row k v) =
     (if k \<in> set (map fst row) then map fst row else map fst row @ [k])"
  by (induction row k v rule: obj_update.induct) auto

lemma map_of_obj_update: "map_of (obj_update row k v) = (map_of row)(k \<mapsto> v)"
  by (induction row k v rule: obj_update.induct) auto

lemma fst_obj_set:
  "map fst (obj_set row k v) =
     (if k = ''__proto__'' \<or> k \<in> set (map fst row) then map fst row else map fst row @ [k])"
  by (simp add: obj_set_def fst_obj_update)

lemma map_of_obj_set:
  "map_of (obj_set row k v) = (if k = ''__proto__'' then map_of row else (map_of row)(k \<mapsto> v))"
  by (simp add: obj_set_def map_of_obj_update)

lemma build_row_Nil [simp]: "build_row [] vs = []"
  by (simp add: build_row_def)

lemma build_row_snoc:
  "build_row (hs @ [h]) vs = obj_set (build_row hs vs) h (value_or_empty vs (length hs))"
  by (simp add: build_row_def)

lemma build_row_keys_indep: "map fst (build_row hs vs) = map fst (build_row hs ws)"
  by (induction hs rule: rev_induct) (simp_all add: build_row_snoc fst_obj_set)

lemma build_row_distinct: "distinct (map fst (build_row hs vs))"
  by (induction hs rule: rev_induct) (simp_all add: build_row_snoc fst_obj_set)

lemma build_row_key_set: "set (map fst (build_row hs vs)) = set hs - {''__proto__''}"
  by (induction hs rule: rev_induct) (auto simp add: build_row_snoc fst_obj_set)


lemma build_row_lookup:
  "i < length hs \<Longrightarrow> hs ! i \<notin> set (drop (Suc i) hs) \<Longrightarrow> hs ! i \<noteq> ''__proto__'' \<Longrightarrow>
     map_of (build_row hs vs) (hs ! i) = Some (value_or_empty vs i)"
proof (induction hs rule: rev_induct)
  case Nil
  then show ?case by simp
next
  case (snoc h hs)
  show ?case
  proof (cases "i = length hs")
    case True
    with snoc.prems show ?thesis
      by (simp add: build_row_snoc map_of_obj_set)
  next
    case False
    with snoc.prems have i: "i < length hs" by simp
    with snoc.prems have "hs ! i \<notin> set (drop (Suc i) hs)" "hs ! i \<noteq> h" "hs ! i \<noteq> ''__proto__''"
      by (simp_all add: nth_append)
    with snoc.IH [OF i] i show ?thesis
      by (simp add: build_row_snoc map_of_obj_set nth_append)
  qed
qed

lemma build_row_take: "build_row hs vs = build_row hs (take (length hs) vs)"
proof -
  have "\<And>n. length hs \<le> n \<Longrightarrow> build_row hs vs = build_row hs (take n vs)"
  proof (induction hs rule: rev_induct)
    case Nil
    show ?case by simp
  next
    case (snoc h hs)
    then have "build_row hs vs = build_row hs (take n vs)" by simp
    moreover have "value_or_empty vs (length hs) = value_or_empty (take n vs) (length hs)"
      using snoc.prems by (simp add: value_or_empty_eq)
    ultimately show ?case by (simp add: build_row_snoc)
  qed
  then show ?thesis by simp
qed

lemma set_Object_entries [simp]: "set (Object_entries row) = set row"
  by (auto simp: Object_entries_def)

lemma fst_insort_key:
  "map fst (insort_key (\<lambda>p. f (fst p)) p ps) = insort_key f (fst p) (map fst ps)"
  by (induction ps) auto

lemma fst_sort_key: "map fst (sort_key (\<lambda>p. f (fst p)) ps) = sort_key f (map fst ps)"
  by (induction ps) (simp_all add: fst_insort_key)

lemma Object_keys_fst:
  "Object_keys row =
     sort_key index_value (filter is_array_index (map fst row)) @
     filter (\<lambda>k. \<not> is_array_index k) (map fst row)"
  by (simp add: Object_keys_def Object_entries_def fst_sort_key filter_map comp_def)

lemma Object_keys_cong: "map fst row = map fst row' \<Longrightarrow> Object_keys row = Object_keys row'"
  by (simp add: Object_keys_fst)

lemma set_Object_keys [simp]: "set (Object_keys row) = set (map fst row)"
  by (simp add: Object_keys_def)

lemma build_row_Object_keys:
  "set (Object_keys (build_row hs vs)) = set hs - {''__proto__''}"
  by (simp only: set_Object_keys build_row_key_set)

lemma csv_field_own:
  "distinct (map fst row) \<Longrightarrow> (k, v) \<in> set row \<Longrightarrow> csv_field row k = JSON_stringify v"
  by (simp add: csv_field_def obj_get_def truthy_def)

lemma csv_fields_own:
  "distinct (map fst row) \<Longrightarrow>
     map (csv_field row) (Object_keys row) = map JSON_stringify (Object_values row)"
proof -
  assume d: "distinct (map fst row)"
  have "csv_field row (fst p) = JSON_stringify (snd p)" if "p \<in> set (Object_entries row)" for p
    using that d csv_field_own [of row "fst p" "snd p"] by simp
  then show ?thesis
    by (simp add: Object_keys_def Object_values_def)
qed

section \<open>Lines of the text\<close>

lemma nonblank_trim: "truthy (trim line) = nonblank line"
  by (simp add: trim_nonblank nonblank_def list_ex_iff)

lemma text_lines_nonblank: "text_lines text = filter nonblank (split_on (CHR 0x0A) text)"
  by (simp add: text_lines_def nonblank_trim)

lemma filter_tail_idem:
  assumes "filter P xs = y # ys"
  shows "filter P ys = ys"
proof -
  from assms obtain vs where "ys = filter P vs"
    unfolding filter_eq_Cons_iff by blast
  then show ?thesis by simp
qed

lemma processHeaders_lines:
  "filter nonblank (split_on (CHR 0x0A) text) = first # rest \<Longrightarrow>
     processHeaders text = Inr (map toLowerCase (spec_tokens first))"
  by (simp add: processHeaders_def text_lines_nonblank extract_headers_tokens)

lemma processText_lines:
  assumes "filter nonblank (split_on (CHR 0x0A) text) = first # rest"
  shows "processText text =
     Inr (filter row_kept
            (map (\<lambda>line. build_row (map toLowerCase (spec_tokens first)) (spec_tokens line)) rest))"
proof -
  have "filter nonblank rest = rest" using assms by (rule filter_tail_idem)
  with assms show ?thesis
    by (simp add: processText_def text_lines_nonblank extract_headers_tokens
        line_values_tokens nonblank_trim)
qed

lemma processText_no_lines:
  "filter nonblank (split_on (CHR 0x0A) text) = [] \<Longrightarrow> processText text = Inl TypeError"
  by (simp add: processText_def text_lines_nonblank)

lemma spec_tokens_nonblank: "nonblank line \<Longrightarrow> spec_tokens line \<noteq> []"
proof (induction line)
  case Nil
  then show ?case by (simp add: nonblank_def)
next
  case (Cons c cs)
  then show ?case by (cases "is_ws c") (auto simp: nonblank_def)
qed

lemma spec_tokens_nonempty: "t \<in> set (spec_tokens line) \<Longrightarrow> t \<noteq> []"
proof (induction line rule: spec_tokens.induct)
  case (1 s)
  show ?case
  proof (cases "dropWhile is_ws s")
    case Nil
    with 1(2) show ?thesis by (simp add: spec_tokens.simps [of s])
  next
    case (Cons c cs)
    with 1(2) have "t = c # takeWhile (\<lambda>x. \<not> is_ws x) cs \<or>
        t \<in> set (spec_tokens (dropWhile (\<lambda>x. \<not> is_ws x) cs))"
      by (simp add: spec_tokens.simps [of s])
    with 1(1) [OF Cons] show ?thesis by auto
  qed
qed

lemma is_ws_simps [simp]:
  "is_ws (CHR 0x0A)" "is_ws (CHR '' '')" "is_alnum c \<Longrightarrow> \<not> is_ws c"
  "\<not> is_ws (CHR ''_'')" "\<not> is_ws (CHR '','')" "\<not> is_ws (CHR 0x22)"
  by (auto simp: is_ws_of_char is_alnum_def Let_def)

lemma snd_Object_values: "(k, v) \<in> set row \<Longrightarrow> v \<in> set (Object_values row)"
proof -
  assume "(k, v) \<in> set row"
  then have "(k, v) \<in> set (Object_entries row)" by simp
  then show ?thesis unfolding Object_values_def by force
qed

lemma build_row_first_kept:
  assumes "hs \<noteq> []" "hd hs \<notin> set (tl hs)" "hd hs \<noteq> ''__proto__''" "nonblank line"
  shows "map_of (build_row hs (spec_tokens line)) (hd hs) = Some (hd (spec_tokens line))"
    and "hd (spec_tokens line) \<noteq> []"
    and "row_kept (build_row hs (spec_tokens line))"
proof -
  from assms(4) have ne: "spec_tokens line \<noteq> []" by (rule spec_tokens_nonblank)
  then have "hd (spec_tokens line) \<in> set (spec_tokens line)" by simp
  then show t: "hd (spec_tokens line) \<noteq> []" by (rule spec_tokens_nonempty)
  from assms(1) have 0: "0 < length hs" "hs ! 0 = hd hs" by (simp_all add: hd_conv_nth)
  from assms(1,2) have "hs ! 0 \<notin> set (drop (Suc 0) hs)" by (simp add: hd_conv_nth drop_Suc)
  with 0 assms(3) have "map_of (build_row hs (spec_tokens line)) (hs ! 0) =
      Some (value_or_empty (spec_tokens line) 0)"
    by (intro build_row_lookup) simp_all
  with 0 ne show m: "map_of (build_row hs (spec_tokens line)) (hd hs) = Some (hd (spec_tokens line))"
    by (simp add: value_or_empty_eq hd_conv_nth)
  then have "(hd hs, hd (spec_tokens line)) \<in> set (build_row hs (spec_tokens line))"
    by (rule map_of_SomeD)
  then have "hd (spec_tokens line) \<in> set (Object_values (build_row hs (spec_tokens line)))"
    by (rule snd_Object_values)
  with t show "row_kept (build_row hs (spec_tokens line))"
    unfolding row_kept_def list_ex_iff truthy_def by blast
qed

section \<open>The table built from a text\<close>

text \<open>
  Claim C1 says that the construction of the table never raises and that the empty text, or
  a text of blank lines only, gives the empty table. In the code \<^verbatim>\<open>lines\<close> is then the
  empty array, \<^verbatim>\<open>lines[0]\<close> is \<^verbatim>\<open>undefined\<close> and \<^verbatim>\<open>lines[0].split\<close> throws a TypeError,
  which the \<^verbatim>\<open>catch\<close> block reports as a failure of the recognition; no table is stored.
\<close>

theorem blank_text_raises:
  "processText [] = Inl TypeError \<and> processText ''  \<newline>   \<newline>'' = Inl TypeError"
  by code_simp



text \<open>
  Claim C9 says that every non-blank line after the first gives a retained record, so that
  the table has one row less than the text has non-blank lines. A later header key equal to
  the first one overwrites the first value, with the empty string when the line has no token
  at the later index: the record of the line \<open>John\<close> under the header line \<open>A A\<close> has
  only empty values and is dropped.
\<close>

theorem repeated_first_key_drops_row:
  "filter nonblank (split_on (CHR 0x0A) ''A A\<newline>John'') = [''A A'', ''John''] \<and>
   processHeaders ''A A\<newline>John'' = Inr [''a'', ''a''] \<and>
   processText ''A A\<newline>John'' = Inr []"
  by code_simp

text \<open>
  Claim C9, amended. A text with a non-blank line has a non-empty sequence of header keys.
  When the first header key does not occur again in the sequence and is not \<^verbatim>\<open>__proto__\<close>,
  every non-blank line after the first gives a record whose value under that key is the
  first token of the line, which is not empty; every such record is retained, and the table
  has as many rows as the text has non-blank lines, minus one.
\<close>

theorem rows_retained_when_first_key_unique:
  assumes "filter nonblank (split_on (CHR 0x0A) text) = first # rest"
  shows "\<exists>headers table.
           processHeaders text = Inr headers \<and> headers \<noteq> [] \<and> processText text = Inr table \<and>
           (hd headers \<notin> set (tl headers) \<and> hd headers \<noteq> ''__proto__'' \<longrightarrow>
              (\<forall>line\<in>set rest.
                 obj_get (build_row headers (line_values line)) (hd headers) =
                   JSString (hd (spec_tokens line)) \<and>
                 hd (spec_tokens line) \<noteq> []) \<and>
              table = map (\<lambda>line. build_row headers (line_values line)) rest \<and>
              length table = length (filter nonblank (split_on (CHR 0x0A) text)) - 1)"
proof -
  let ?hs = "map toLowerCase (spec_tokens first)"
  let ?rows = "map (\<lambda>line. build_row ?hs (spec_tokens line)) rest"
  have "first \<in> set (filter nonblank (split_on (CHR 0x0A) text))"
    unfolding assms by simp
  then have "nonblank first" by simp
  then have ne: "?hs \<noteq> []" by (simp add: spec_tokens_nonblank)
  have nb: "nonblank line" if "line \<in> set rest" for line
  proof -
    from that have "line \<in> set (filter nonblank (split_on (CHR 0x0A) text))"
      unfolding assms by simp
    then show ?thesis by simp
  qed
  have cond: "(\<forall>line\<in>set rest.
                 obj_get (build_row ?hs (line_values line)) (hd ?hs) =
                   JSString (hd (spec_tokens line)) \<and>
                 hd (spec_tokens line) \<noteq> []) \<and>
              filter row_kept ?rows = map (\<lambda>line. build_row ?hs (line_values line)) rest \<and>
              length (filter row_kept ?rows) = length (filter nonblank (split_on (CHR 0x0A) text)) - 1"
    if u: "hd ?hs \<notin> set (tl ?hs)" "hd ?hs \<noteq> ''__proto__''"
  proof -
    have kept: "\<forall>row\<in>set ?rows. row_kept row"
      using build_row_first_kept(3) [OF ne u] nb by auto
    then have "filter row_kept ?rows = ?rows" by (simp only: filter_id_conv)
    moreover have "obj_get (build_row ?hs (line_values line)) (hd ?hs) =
        JSString (hd (spec_tokens line)) \<and> hd (spec_tokens line) \<noteq> []"
      if "line \<in> set rest" for line
      using build_row_first_kept(1,2) [OF ne u nb [OF that]]
      by (simp add: obj_get_def line_values_tokens)
    ultimately show ?thesis
      by (simp add: assms line_values_tokens)
  qed
  show ?thesis
    using processHeaders_lines [OF assms] processText_lines [OF assms] ne cond
    by (intro exI [of _ ?hs] exI [of _ "filter row_kept ?rows"]) blast
qed

theorem rows_retained_when_first_key_unique_witness:
  "filter nonblank (split_on (CHR 0x0A) ''NAME AGE\<newline>John 30\<newline>   \<newline>Jane'') =
     ''NAME AGE'' # [''John 30'', ''Jane''] \<and>
   processHeaders ''NAME AGE\<newline>John 30\<newline>   \<newline>Jane'' = Inr [''name'', ''age''] \<and>
   hd [''name'', ''age''] \<notin> set (tl [''name'', ''age'']) \<and> hd [''name'', ''age''] \<noteq> ''__proto__'' \<and>
   (\<exists>table. processText ''NAME AGE\<newline>John 30\<newline>   \<newline>Jane'' = Inr table \<and>
      table = map (\<lambda>line. build_row [''name'', ''age''] (line_values line)) [''John 30'', ''Jane''] \<and>
      length table = 2)"
proof -
  let ?t = "''NAME AGE\<newline>John 30\<newline>   \<newline>Jane''"
  have h: "filter nonblank (split_on (CHR 0x0A) ?t) = ''NAME AGE'' # [''John 30'', ''Jane'']"
    by code_simp
  have hs: "processHeaders ?t = Inr [''name'', ''age'']"
    by code_simp
  from rows_retained_when_first_key_unique [OF h] obtain headers table where
    r: "processHeaders ?t = Inr headers" "processText ?t = Inr table"
       "hd headers \<notin> set (tl headers) \<and> hd headers \<noteq> ''__proto__'' \<longrightarrow>
          table = map (\<lambda>line. build_row headers (line_values line)) [''John 30'', ''Jane''] \<and>
          length table = length (filter nonblank (split_on (CHR 0x0A) ?t)) - 1"
    by blast
  from r(1) hs have eq: "headers = [''name'', ''age'']" by simp
  have u: "hd [''name'', ''age''] \<notin> set (tl [''name'', ''age'']) \<and> hd [''name'', ''age''] \<noteq> ''__proto__''"
    by simp
  with r(3) eq have "table = map (\<lambda>line. build_row [''name'', ''age''] (line_values line)) [''John 30'', ''Jane''] \<and>
      length table = 2"
    by (simp add: h)
  with h hs u r(2) show ?thesis by blast
qed

section \<open>The record of a data line\<close>

text \<open>
  Claim C4 says that the record of a data line maps the header key at every index to the
  token of the line at that index. Two header tokens that normalise to the same key share
  one property of the record, and the later assignment wins: under the header line \<open>A A\<close>
  the line \<open>x y\<close> gives a record that maps the key at index 0 to \<open>y\<close>, the token at
  index 1.
\<close>

theorem repeated_key_takes_later_token:
  "processHeaders ''A A\<newline>x y'' = Inr [''a'', ''a''] \<and>
   line_values ''x y'' = [''x'', ''y''] \<and>
   processText ''A A\<newline>x y'' = Inr [build_row [''a'', ''a''] (line_values ''x y'')] \<and>
   obj_get (build_row [''a'', ''a''] (line_values ''x y'')) ([''a'', ''a''] ! 0) = JSString ''y''"
  by code_simp

text \<open>
  Claim C4, amended. For every line and every index \<open>i\<close> below the number of header keys
  such that the key at \<open>i\<close> does not occur again at a later index and is not
  \<^verbatim>\<open>__proto__\<close>, the record built from the line maps that key to the \<open>i\<close>-th token of the
  line when the line has one and to the empty string otherwise. The tokens at the indices
  from the number of header keys on have no effect on the record.
\<close>

theorem record_maps_key_to_token:
  assumes "i < length headers"
    and "headers ! i \<notin> set (drop (Suc i) headers)"
    and "headers ! i \<noteq> ''__proto__''"
  shows "obj_get (build_row headers (line_values line)) (headers ! i) =
           JSString (if i < length (spec_tokens line) then spec_tokens line ! i else []) \<and>
         build_row headers (line_values line) =
           build_row headers (take (length headers) (spec_tokens line))"
proof -
  have "map_of (build_row headers (spec_tokens line)) (headers ! i) =
      Some (value_or_empty (spec_tokens line) i)"
    using assms by (rule build_row_lookup)
  then have "obj_get (build_row headers (line_values line)) (headers ! i) =
      JSString (if i < length (spec_tokens line) then spec_tokens line ! i else [])"
    by (simp add: obj_get_def line_values_tokens value_or_empty_eq)
  moreover have "build_row headers (line_values line) =
      build_row headers (take (length headers) (spec_tokens line))"
    unfolding line_values_tokens by (rule build_row_take)
  ultimately show ?thesis by (rule conjI)
qed

theorem record_maps_key_to_token_witness:
  "obj_get (build_row [''name'', ''age'', ''city''] (line_values ''John 30'')) ''name'' = JSString ''John'' \<and>
   obj_get (build_row [''name'', ''age'', ''city''] (line_values ''John 30'')) ''city'' = JSString [] \<and>
   build_row [''name'', ''age''] (line_values ''John 30 Austin'') =
     build_row [''name'', ''age''] [''John'', ''30'']"
proof -
  have t3: "spec_tokens ''John 30 Austin'' = [''John'', ''30'', ''Austin'']"
  proof -
    have "line_values ''John 30 Austin'' = [''John'', ''30'', ''Austin'']" by code_simp
    then show ?thesis by (simp only: line_values_tokens)
  qed
  have t: "spec_tokens ''John 30'' = [''John'', ''30'']"
  proof -
    have "line_values ''John 30'' = [''John'', ''30'']" by code_simp
    then show ?thesis by (simp only: line_values_tokens)
  qed
  have "obj_get (build_row [''name'', ''age'', ''city''] (line_values ''John 30'')) ''name'' = JSString ''John''"
    using record_maps_key_to_token [of 0 "[''name'', ''age'', ''city'']" "''John 30''", THEN conjunct1]
    by (simp add: t)
  moreover
  have "obj_get (build_row [''name'', ''age'', ''city''] (line_values ''John 30'')) ''city'' = JSString []"
    using record_maps_key_to_token [of 2 "[''name'', ''age'', ''city'']" "''John 30''", THEN conjunct1]
    by (simp add: t)
  moreover
  have "build_row [''name'', ''age''] (line_values ''John 30 Austin'') =
     build_row [''name'', ''age''] [''John'', ''30'']"
    using record_maps_key_to_token [of 0 "[''name'', ''age'']" "''John 30 Austin''", THEN conjunct2]
    by (simp add: t3)
  ultimately show ?thesis by blast
qed

text \<open>
  Claim C5 says that the keys of every record are the header keys. The loop assigns
  \<^verbatim>\<open>row[header]\<close> for every header key, but for the key \<^verbatim>\<open>__proto__\<close> the assignment
  creates no property: under the header line \<open>__PROTO__ B\<close> the record of the line
  \<open>x y\<close> has the single key \<open>b\<close>, while the header keys are \<^verbatim>\<open>__proto__\<close> and \<open>b\<close>.
\<close>

theorem proto_header_is_no_key:
  "processHeaders ''__PROTO__ B\<newline>x y'' = Inr [''__proto__'', ''b''] \<and>
   processText ''__PROTO__ B\<newline>x y'' = Inr [[(''b'', ''y'')]] \<and>
   Object_keys [(''b'', ''y'')] = [''b'']"
  by code_simp

section \<open>Quoting, joining and splitting\<close>

lemma hex_digit_mem: "hex_digit n \<in> set ''0123456789abcdef''"
  unfolding hex_digit_def by (rule nth_mem) simp

lemma hex_digit_not_special:
  "hex_digit n \<noteq> CHR 0x0A" "hex_digit n \<noteq> CHR 0x22" "hex_digit n \<noteq> CHR '',''"
  using hex_digit_mem [of n] by auto

lemma json_escape_plain:
  assumes "c \<noteq> CHR 0x22" "c \<noteq> CHR 0x5C" "32 \<le> (of_char c :: nat)"
  shows "json_escape c = [c]"
proof -
  from assms(3) have "c \<noteq> CHR 0x08" "c \<noteq> CHR 0x09" "c \<noteq> CHR 0x0A" "c \<noteq> CHR 0x0C"
    "c \<noteq> CHR 0x0D" "\<not> (of_char c :: nat) < 32"
    by auto
  with assms(1,2) show ?thesis by (simp add: json_escape_def)
qed

lemma json_escape_no_newline: "CHR 0x0A \<notin> set (json_escape c)"
  by (simp add: json_escape_def hex_digit_not_special(1) [symmetric])

lemma json_escape_alnum:
  assumes "is_alnum c"
  shows "json_escape c = [c]"
proof (rule json_escape_plain)
  from assms show "32 \<le> (of_char c :: nat)" by (auto simp: is_alnum_def Let_def)
  from assms show "c \<noteq> CHR 0x22" by (auto simp: is_alnum_def Let_def)
  from assms show "c \<noteq> CHR 0x5C" by (auto simp: is_alnum_def Let_def)
qed

lemma concat_singletons: "concat (map (\<lambda>c. [c]) v) = v"
  by (induction v) simp_all

lemma JSON_stringify_plain:
  assumes "\<forall>c\<in>set v. json_escape c = [c]"
  shows "JSON_stringify v = CHR 0x22 # v @ [CHR 0x22]"
proof -
  from assms have "map json_escape v = map (\<lambda>c. [c]) v" by simp
  then show ?thesis by (simp only: JSON_stringify_def concat_singletons)
qed

lemma JSON_stringify_no_newline: "CHR 0x0A \<notin> set (JSON_stringify v)"
  by (auto simp: JSON_stringify_def json_escape_no_newline)

lemma split_on_not_Nil [simp]: "split_on d s \<noteq> []"
  by (induction s) (auto simp: Let_def)

lemma split_on_no_sep: "d \<notin> set f \<Longrightarrow> split_on d f = [f]"
  by (induction f) (auto simp: Let_def)

lemma split_on_append: "d \<notin> set f \<Longrightarrow> split_on d (f @ d # rest) = f # split_on d rest"
  by (induction f) (auto simp: Let_def)

lemma split_on_join:
  "fields \<noteq> [] \<Longrightarrow> \<forall>f\<in>set fields. d \<notin> set f \<Longrightarrow> split_on d (join_str [d] fields) = fields"
proof (induction "[d]" fields rule: join_str.induct)
  case 1
  then show ?case by simp
next
  case (2 x)
  then show ?case by (simp add: split_on_no_sep)
next
  case (3 x y ys)
  then show ?case by (simp add: split_on_append)
qed

lemma strip_quotes_quoted: "strip_quotes (CHR 0x22 # v @ [CHR 0x22]) = v"
  by (simp add: strip_quotes_def)

lemma csv_content_uniform:
  assumes "table \<noteq> []"
    and "\<forall>row\<in>set table. distinct (map fst row) \<and> map fst row = map fst (hd table)"
  shows "csv_content table =
     join_str [CHR 0x0A]
       (join_str '','' (Object_keys (hd table)) #
        map (\<lambda>row. join_str '','' (map JSON_stringify (Object_values row))) table)"
proof -
  have row: "map (csv_field row) (Object_keys (hd table)) = map JSON_stringify (Object_values row)"
    if "row \<in> set table" for row
  proof -
    from that assms(2) have d: "distinct (map fst row)" and k: "map fst (hd table) = map fst row"
      by auto
    from k have "Object_keys (hd table) = Object_keys row" by (rule Object_keys_cong)
    with csv_fields_own [OF d] show ?thesis by (simp only:)
  qed
  have "map (\<lambda>row. join_str '','' (map (csv_field row) (Object_keys (hd table)))) table =
        map (\<lambda>row. join_str '','' (map JSON_stringify (Object_values row))) table"
    by (rule map_cong [OF refl]) (simp only: row)
  then show ?thesis by (simp only: csv_content_def Let_def)
qed

lemma exportToCSV_Some: "table \<noteq> [] \<Longrightarrow> exportToCSV (Some table) = Inr (Some (csv_content table))"
  by (cases table) (simp_all add: exportToCSV_def)

lemma processText_rows:
  assumes "processText text = Inr table"
  obtains first rest where
    "filter nonblank (split_on (CHR 0x0A) text) = first # rest"
    "table = filter row_kept
        (map (\<lambda>line. build_row (map toLowerCase (spec_tokens first)) (spec_tokens line)) rest)"
proof (cases "filter nonblank (split_on (CHR 0x0A) text)")
  case Nil
  with assms show ?thesis by (simp add: processText_no_lines)
next
  case (Cons first rest)
  with assms processText_lines [OF Cons] that show ?thesis by simp
qed

lemma toLowerCase_no_ws: "(\<forall>c\<in>set (toLowerCase s). \<not> is_ws c) = (\<forall>c\<in>set s. \<not> is_ws c)"
  by (simp add: toLowerCase_def)

lemma spec_tokens_no_ws: "t \<in> set (spec_tokens line) \<Longrightarrow> c \<in> set t \<Longrightarrow> \<not> is_ws c"
proof -
  assume "t \<in> set (spec_tokens line)" "c \<in> set t"
  then have "t \<in> set (split_ws line)"
    unfolding split_ws_tokens [symmetric] by simp
  then show ?thesis using \<open>c \<in> set t\<close> by (rule split_ws_no_ws)
qed

section \<open>Tables whose rows are all retained\<close>

lemma set_join_str: "set (join_str sep xs) \<subseteq> set sep \<union> (\<Union>x\<in>set xs. set x)"
  by (induction sep xs rule: join_str.induct) auto





section \<open>The exported payload\<close>







section \<open>Reading the payload back\<close>

lemma alnum_not_special:
  assumes "is_alnum c"
  shows "c \<noteq> CHR '',''" "c \<noteq> CHR 0x22" "c \<noteq> CHR 0x0A"
  using assms by (auto simp: is_alnum_def Let_def)

lemma quoted_alnum:
  assumes "list_all is_alnum v"
  shows "JSON_stringify v = CHR 0x22 # v @ [CHR 0x22]"
    and "CHR '','' \<notin> set (JSON_stringify v)"
    and "strip_quotes (JSON_stringify v) = v"
proof -
  from assms have a: "\<forall>c\<in>set v. is_alnum c" by (simp add: list_all_iff)
  then have "\<forall>c\<in>set v. json_escape c = [c]" by (simp add: json_escape_alnum)
  then show q: "JSON_stringify v = CHR 0x22 # v @ [CHR 0x22]" by (rule JSON_stringify_plain)
  from a show "CHR '','' \<notin> set (JSON_stringify v)"
    unfolding q using alnum_not_special(1) by auto
  show "strip_quotes (JSON_stringify v) = v"
    unfolding q by (rule strip_quotes_quoted)
qed

lemma row_line_round_trip:
  assumes "vals \<noteq> []" and "\<forall>v\<in>set vals. list_all is_alnum v"
  shows "map strip_quotes (split_on (CHR '','') (join_str '','' (map JSON_stringify vals))) = vals"
proof -
  have "split_on (CHR '','') (join_str [CHR '',''] (map JSON_stringify vals)) =
      map JSON_stringify vals"
    using assms by (intro split_on_join) (simp_all add: quoted_alnum(2))
  moreover have "map strip_quotes (map JSON_stringify vals) = vals"
    using assms(2) by (induction vals) (simp_all add: quoted_alnum(3))
  ultimately show ?thesis by simp
qed

lemma join_no_newline:
  assumes "\<forall>x\<in>set xs. CHR 0x0A \<notin> set x"
  shows "CHR 0x0A \<notin> set (join_str '','' xs)"
  using assms set_join_str [of "'',''" xs] by auto

lemma header_key_no_newline:
  assumes "k \<in> set (map fst (build_row (map toLowerCase (spec_tokens first)) vs))"
  shows "CHR 0x0A \<notin> set k"
proof -
  from assms have "k \<in> set (map toLowerCase (spec_tokens first))"
    unfolding build_row_key_set by simp
  then obtain t where t: "t \<in> set (spec_tokens first)" and k: "k = toLowerCase t" by auto
  from t have "\<forall>c\<in>set t. \<not> is_ws c" by (blast dest: spec_tokens_no_ws)
  then have "\<forall>c\<in>set k. \<not> is_ws c" unfolding k by (simp only: toLowerCase_no_ws)
  then show ?thesis by auto
qed

lemma row_kept_values: "row_kept row \<Longrightarrow> Object_values row \<noteq> []"
  unfolding row_kept_def list_ex_iff by auto

text \<open>
  Claim C7. For every non-empty table built from a text whose values are all alphanumeric,
  the export produces a payload, and splitting the payload into lines, every line after the
  header line on commas, and stripping the quotes of every field gives back the values of
  the records, row by row.
\<close>

theorem export_round_trip:
  assumes "processText text = Inr table" and "table \<noteq> []"
    and "\<forall>row\<in>set table. \<forall>v\<in>set (Object_values row). list_all is_alnum v"
  shows "\<exists>payload. exportToCSV (Some table) = Inr (Some payload) \<and>
           tl (retokenize payload) = map Object_values table"
proof -
  from assms(1) obtain first rest where
    table: "table = filter row_kept
        (map (\<lambda>line. build_row (map toLowerCase (spec_tokens first)) (spec_tokens line)) rest)"
    by (rule processText_rows)
  let ?hs = "map toLowerCase (spec_tokens first)"
  have built: "\<exists>vs. row = build_row ?hs vs" and kept: "row_kept row" if "row \<in> set table" for row
    using that unfolding table by auto
  from assms(2) have hd_in: "hd table \<in> set table" by simp
  have uniform: "\<forall>row\<in>set table. distinct (map fst row) \<and> map fst row = map fst (hd table)"
  proof
    fix row assume "row \<in> set table"
    then obtain vs where r: "row = build_row ?hs vs" using built by blast
    from built [OF hd_in] obtain ws where h: "hd table = build_row ?hs ws" by blast
    show "distinct (map fst row) \<and> map fst row = map fst (hd table)"
      unfolding r h using build_row_distinct build_row_keys_indep by blast
  qed
  let ?header = "join_str '','' (Object_keys (hd table))"
  let ?rows = "map (\<lambda>row. join_str '','' (map JSON_stringify (Object_values row))) table"
  let ?payload = "join_str [CHR 0x0A] (?header # ?rows)"
  have export: "exportToCSV (Some table) = Inr (Some ?payload)"
    using exportToCSV_Some [OF assms(2)] csv_content_uniform [OF assms(2) uniform] by simp
  have "CHR 0x0A \<notin> set ?header"
  proof (rule join_no_newline, rule ballI)
    fix k assume "k \<in> set (Object_keys (hd table))"
    then have k: "k \<in> set (map fst (hd table))" by simp
    from built [OF hd_in] obtain ws where "hd table = build_row ?hs ws" by blast
    with k have "k \<in> set (map fst (build_row ?hs ws))" by (simp only:)
    then show "CHR 0x0A \<notin> set k" by (rule header_key_no_newline)
  qed
  moreover have "\<forall>l\<in>set ?rows. CHR 0x0A \<notin> set l"
    by (auto intro!: join_no_newline simp: JSON_stringify_no_newline)
  ultimately have "split_on (CHR 0x0A) ?payload = ?header # ?rows"
    by (intro split_on_join) simp_all
  then have "tl (retokenize ?payload) =
      map (\<lambda>row. map strip_quotes
             (split_on (CHR '','') (join_str '','' (map JSON_stringify (Object_values row))))) table"
    by (simp add: retokenize_def comp_def)
  also have "\<dots> = map Object_values table"
  proof (rule map_cong [OF refl])
    fix row assume r: "row \<in> set table"
    from kept [OF r] have "Object_values row \<noteq> []" by (rule row_kept_values)
    moreover from r assms(3) have "\<forall>v\<in>set (Object_values row). list_all is_alnum v" by blast
    ultimately show "map strip_quotes
        (split_on (CHR '','') (join_str '','' (map JSON_stringify (Object_values row)))) =
        Object_values row"
      by (rule row_line_round_trip)
  qed
  finally show ?thesis using export by blast
qed

theorem export_round_trip_witness:
  \<open>processText ''NAME AGE CITY\<newline>John 30 Austin\<newline>Jane 25\<newline>   \<newline>'' =
     Inr [[(''name'', ''John''), (''age'', ''30''), (''city'', ''Austin'')],
          [(''name'', ''Jane''), (''age'', ''25''), (''city'', '''')]] \<and>
   exportToCSV (Some [[(''name'', ''John''), (''age'', ''30''), (''city'', ''Austin'')],
          [(''name'', ''Jane''), (''age'', ''25''), (''city'', '''')]]) =
     Inr (Some ''name,age,city\<newline>"John","30","Austin"\<newline>"Jane","25",""'') \<and>
   tl (retokenize ''name,age,city\<newline>"John","30","Austin"\<newline>"Jane","25",""'') =
     [[''John'', ''30'', ''Austin''], [''Jane'', ''25'', '''']]\<close>
proof -
  let ?t = "''NAME AGE CITY\<newline>John 30 Austin\<newline>Jane 25\<newline>   \<newline>''"
  let ?table = "[[(''name'', ''John''), (''age'', ''30''), (''city'', ''Austin'')],
          [(''name'', ''Jane''), (''age'', ''25''), (''city'', '''')]]"
  have p: "processText ?t = Inr ?table" by code_simp
  have v: "map Object_values ?table = [[''John'', ''30'', ''Austin''], [''Jane'', ''25'', '''']]"
    by code_simp
  have a: "\<forall>row\<in>set ?table. \<forall>v\<in>set (Object_values row). list_all is_alnum v"
    by code_simp
  have e: \<open>exportToCSV (Some ?table) =
     Inr (Some ''name,age,city\<newline>"John","30","Austin"\<newline>"Jane","25",""'')\<close>
    by code_simp
  from export_round_trip [OF p _ a] obtain payload where
    "exportToCSV (Some ?table) = Inr (Some payload)"
    "tl (retokenize payload) = map Object_values ?table"
    by blast
  with e v have \<open>tl (retokenize ''name,age,city\<newline>"John","30","Austin"\<newline>"Jane","25",""'') =
     [[''John'', ''30'', ''Austin''], [''Jane'', ''25'', '''']]\<close>
    by simp
  with p e show ?thesis by blast
qed

end
